theory Spec2Isabelle
  imports Main
begin

section \<open>The exec interposition shim of termux-exec-compat\<close>

text \<open>
  A shallow embedding of \<^verbatim>\<open>termux_exec_compat.c\<close>. The C functions keep their names.
  What the C code reads from its surroundings (environment variables, files, the
  result of \<^verbatim>\<open>dlsym\<close>, whether an allocation succeeds, what the underlying
  \<^verbatim>\<open>execve\<close> does) is a field of the record \<open>world\<close>; what it does to its
  surroundings (the calls of the underlying \<^verbatim>\<open>execve\<close>) is returned as a trace.
\<close>

subsection \<open>C data\<close>

text \<open>
  A C string is the list of its bytes before the terminating NUL; a \<^verbatim>\<open>const char *\<close>
  that may be NULL is a \<open>string option\<close>. An array of \<^verbatim>\<open>char *\<close> (an argument
  vector) is the block of its slots, each NULL (\<open>None\<close>) or a string; the pointer to
  it may itself be NULL. The slots after the first NULL slot are memory the callee has no
  business reading.
\<close>

type_synonym ptr_array = "string option list"

datatype errno = ENOENT | ENOTDIR | ENOMEM | ENOSYS | ENOEXEC | EACCES | EFAULT | EOTHER nat

text \<open>
  What \<^verbatim>\<open>open(path, O_RDONLY | O_CLOEXEC)\<close> followed by one \<^verbatim>\<open>read\<close> from offset 0
  gives: the open fails, the read fails (a directory), or the read of \<open>k\<close> bytes
  returns the first \<open>k\<close> bytes of the content (fewer at end of file).
\<close>

datatype file_read = NoOpen | ReadError | Bytes "char list"

text \<open>One call of the underlying \<^verbatim>\<open>execve\<close> (the \<^verbatim>\<open>real_execve_fn\<close> pointer).\<close>

record real_call =
  call_file :: "string option"
  call_argv :: "ptr_array option"
  call_envp :: "string list option"

text \<open>
  How an exec function ends: the image is replaced and the call never returns, or it
  returns -1 with \<^verbatim>\<open>errno\<close> set.
\<close>

datatype outcome = NoReturn | Failed errno

type_synonym exec_result = "real_call list \<times> outcome"

record world =
  getenv :: "string \<Rightarrow> string option"
  environ :: "string list option"
  files :: "string \<Rightarrow> file_read"
  access_x :: "string \<Rightarrow> bool"
  dlsym_execve :: "(real_call \<Rightarrow> errno option) option"
  calloc_ok :: "nat \<Rightarrow> bool"
  strdup_ok :: "string \<Rightarrow> bool"

text \<open>\<^verbatim>\<open>PATH_MAX\<close> of \<^verbatim>\<open>limits.h\<close> on Linux and Android.\<close>

definition PATH_MAX :: nat where
  "PATH_MAX = 4096"

subsection \<open>String helpers\<close>

text \<open>
  \<^verbatim>\<open>strncmp(value, prefix, strlen(prefix)) == 0\<close>: the first \<open>length prefix\<close> bytes
  of \<open>value\<close> are \<open>prefix\<close>.
\<close>

fun starts_with :: "string option \<Rightarrow> string option \<Rightarrow> bool" where
  "starts_with (Some v) (Some p) = (take (length p) v = p)"
| "starts_with _ _ = False"

text \<open>\<^verbatim>\<open>strstr(haystack, needle) != NULL\<close>.\<close>

fun strstr_found :: "string \<Rightarrow> string \<Rightarrow> bool" where
  "strstr_found [] needle = (needle = [])"
| "strstr_found (c # cs) needle =
     (take (length needle) (c # cs) = needle \<or> strstr_found cs needle)"

text \<open>\<^verbatim>\<open>strchr(s, c) != NULL\<close> for a character other than NUL.\<close>

definition strchr_found :: "string \<Rightarrow> char \<Rightarrow> bool" where
  "strchr_found s c = (c \<in> set s)"

definition is_linker_path :: "string option \<Rightarrow> bool" where
  "is_linker_path path =
     (case path of
        None \<Rightarrow> False
      | Some p \<Rightarrow> p = ''/system/bin/linker64'' \<or> p = ''/system/bin/linker'')"

definition select_system_linker :: "world \<Rightarrow> string" where
  "select_system_linker w =
     (if access_x w ''/system/bin/linker64'' then ''/system/bin/linker64''
      else ''/system/bin/linker'')"

subsection \<open>Legacy path remapper and path classifier\<close>

definition legacy_data :: string where
  "legacy_data = ''/data/data/com.termux/files/usr''"

definition legacy_user :: string where
  "legacy_user = ''/data/user/0/com.termux/files/usr''"

text \<open>
  The result is the content of \<^verbatim>\<open>out\<close> when the C function returns true, \<open>None\<close>
  when it returns false. \<^verbatim>\<open>out\<close> is a local buffer of the caller at every call and
  never NULL. \<open>n\<close> is what \<^verbatim>\<open>snprintf\<close> returns, the length of the untruncated
  output.
\<close>

definition map_legacy_termux_usr_path :: "world \<Rightarrow> string option \<Rightarrow> nat \<Rightarrow> string option" where
  "map_legacy_termux_usr_path w path out_size =
     (case path of
        None \<Rightarrow> None
      | Some p \<Rightarrow>
          if out_size = 0 then None
          else
            (case getenv w ''PREFIX'' of
               None \<Rightarrow> None
             | Some prefix \<Rightarrow>
                 if prefix = [] then None
                 else
                   (case (if starts_with (Some p) (Some legacy_data)
                          then Some (drop (length legacy_data) p)
                          else if starts_with (Some p) (Some legacy_user)
                          then Some (drop (length legacy_user) p)
                          else None) of
                      None \<Rightarrow> None
                    | Some suffix \<Rightarrow>
                        (let n = length (prefix @ suffix)
                         in if 0 < n \<and> n < out_size then Some (prefix @ suffix) else None))))"

text \<open>\<^verbatim>\<open>name && name[0] != '\0' && starts_with(check_path, name)\<close> for an environment variable.\<close>

definition env_root_matches :: "world \<Rightarrow> string \<Rightarrow> string \<Rightarrow> bool" where
  "env_root_matches w var check_path =
     (case getenv w var of
        None \<Rightarrow> False
      | Some root \<Rightarrow> root \<noteq> [] \<and> starts_with (Some check_path) (Some root))"

definition path_in_prefix :: "world \<Rightarrow> string option \<Rightarrow> bool" where
  "path_in_prefix w path =
     (case path of
        None \<Rightarrow> False
      | Some p \<Rightarrow>
          if take 1 p = ''/'' then
            (let check_path =
                   (case map_legacy_termux_usr_path w (Some p) PATH_MAX of
                      Some remapped \<Rightarrow> remapped
                    | None \<Rightarrow> p)
             in if env_root_matches w ''TERMUX__ROOTFS'' check_path then True
                else if env_root_matches w ''PREFIX'' check_path then True
                else strstr_found check_path ''/files/prefix/'')
          else False)"

subsection \<open>Binary format detector and shebang parser\<close>

definition elf_magic :: "char list" where
  "elf_magic = [CHR 0x7F, CHR ''E'', CHR ''L'', CHR ''F'']"

text \<open>\<^verbatim>\<open>open\<close> of a NULL path fails (\<^verbatim>\<open>EFAULT\<close>).\<close>

definition open_read :: "world \<Rightarrow> string option \<Rightarrow> file_read" where
  "open_read w path = (case path of None \<Rightarrow> NoOpen | Some p \<Rightarrow> files w p)"

definition is_elf_binary :: "world \<Rightarrow> string option \<Rightarrow> bool" where
  "is_elf_binary w path =
     (case open_read w path of
        NoOpen \<Rightarrow> False
      | ReadError \<Rightarrow> False
      | Bytes content \<Rightarrow>
          (let magic = take 4 content
           in length magic = 4 \<and> magic = elf_magic))"

record shebang_info_t =
  interpreter :: string
  arg :: string
  has_arg :: bool

definition is_blank :: "char \<Rightarrow> bool" where
  "is_blank c = (c = CHR '' '' \<or> c = CHR 0x09)"

definition is_eol :: "char \<Rightarrow> bool" where
  "is_eol c = (c = CHR 0x0A \<or> c = CHR 0x0D)"

text \<open>
  The parse of the buffer after \<^verbatim>\<open>buf[n] = '\0'\<close>, from \<^verbatim>\<open>buf + 2\<close> on. \<open>s\<close> is
  the C string at \<^verbatim>\<open>buf + 2\<close>: every scanning loop of the source stops at the NUL.
  \<open>p\<close>, \<open>e\<close> are the strings at the pointers \<^verbatim>\<open>p\<close> and \<^verbatim>\<open>end\<close> (after the
  second skip of blanks).
\<close>

definition parse_shebang_line :: "string \<Rightarrow> shebang_info_t option" where
  "parse_shebang_line s =
     (let p = dropWhile is_blank s
      in if take 1 p = ''/'' then
           (let tok = takeWhile (\<lambda>c. \<not> is_blank c \<and> \<not> is_eol c) p;
                len = length tok
            in if len = 0 \<or> PATH_MAX \<le> len then None
               else
                 (let e = dropWhile is_blank (drop len p)
                  in if e \<noteq> [] \<and> \<not> is_eol (hd e) then
                       (let a = takeWhile (\<lambda>c. \<not> is_eol c) e;
                            arg_len = length a
                        in if 0 < arg_len \<and> arg_len < PATH_MAX
                           then Some \<lparr>interpreter = tok, arg = a, has_arg = True\<rparr>
                           else Some \<lparr>interpreter = tok, arg = [], has_arg = False\<rparr>)
                     else Some \<lparr>interpreter = tok, arg = [], has_arg = False\<rparr>))
         else None)"

text \<open>
  \<^verbatim>\<open>read(fd, buf, sizeof(buf) - 1)\<close> reads at most 511 bytes. The result is the
  content of \<^verbatim>\<open>*out\<close> when the C function returns true.
\<close>

definition parse_shebang :: "world \<Rightarrow> string option \<Rightarrow> shebang_info_t option" where
  "parse_shebang w path =
     (case open_read w path of
        NoOpen \<Rightarrow> None
      | ReadError \<Rightarrow> None
      | Bytes content \<Rightarrow>
          (let buf = take 511 content;
               n = length buf
           in if n \<le> 2 then None
              else if take 2 buf = ''#!''
              then parse_shebang_line (takeWhile (\<lambda>c. c \<noteq> CHR 0x00) (drop 2 buf))
              else None))"

definition should_wrap_elf :: "world \<Rightarrow> string option \<Rightarrow> bool" where
  "should_wrap_elf w filename =
     (case filename of
        None \<Rightarrow> False
      | Some f \<Rightarrow>
          if take 1 f = ''/'' then
            (if is_linker_path (Some f) then False
             else if starts_with (Some f) (Some ''/system/'') \<or> starts_with (Some f) (Some ''/apex/'')
             then False
             else if path_in_prefix w (Some f) then is_elf_binary w (Some f)
             else False)
          else False)"

subsection \<open>Argument vectors and the wrapped exec calls\<close>

text \<open>
  \<^verbatim>\<open>while (argv[argc]) argc++;\<close> on the block of slots at \<^verbatim>\<open>argv\<close>. A caller's
  vector has a NULL slot; on a block without one the C loop would leave the block, and
  the count of the model is the length of the block.
\<close>

fun argv_count :: "ptr_array \<Rightarrow> nat" where
  "argv_count [] = 0"
| "argv_count (None # rest) = 0"
| "argv_count (Some a # rest) = Suc (argv_count rest)"

definition argc_of :: "ptr_array option \<Rightarrow> nat" where
  "argc_of argv = (case argv of None \<Rightarrow> 0 | Some a \<Rightarrow> argv_count a)"

text \<open>\<^verbatim>\<open>envp ? envp : environ\<close>.\<close>

definition envp_or_environ :: "world \<Rightarrow> string list option \<Rightarrow> string list option" where
  "envp_or_environ w envp = (case envp of None \<Rightarrow> environ w | Some e \<Rightarrow> Some e)"

text \<open>
  A call through \<^verbatim>\<open>real_execve_fn\<close>: the call is recorded; the underlying
  \<^verbatim>\<open>execve\<close> either replaces the image or returns -1 with an \<^verbatim>\<open>errno\<close>.
\<close>

definition call_real_execve ::
  "(real_call \<Rightarrow> errno option) \<Rightarrow> string option \<Rightarrow> ptr_array option \<Rightarrow> string list option \<Rightarrow> exec_result" where
  "call_real_execve real_execve_fn filename argv envp =
     (let c = \<lparr>call_file = filename, call_argv = argv, call_envp = envp\<rparr>
      in ([c], case real_execve_fn c of None \<Rightarrow> NoReturn | Some e \<Rightarrow> Failed e))"

text \<open>\<^verbatim>\<open>for (size_t i = 1; i < argc; i++) new_argv[i + 1] = argv[i];\<close>\<close>

function copy_args :: "ptr_array \<Rightarrow> nat \<Rightarrow> nat \<Rightarrow> ptr_array \<Rightarrow> ptr_array" where
  "copy_args argv argc i new_argv =
     (if i < argc then copy_args argv argc (i + 1) (new_argv[i + 1 := argv ! i])
      else new_argv)"
  by pat_completeness auto
termination
  by (relation "measure (\<lambda>(argv, argc, i, new_argv). argc - i)") auto

text \<open>
  The vector \<^verbatim>\<open>execve_via_linker\<close> builds in the block that
  \<^verbatim>\<open>calloc(argc + 2, sizeof(char *))\<close> returned zeroed. With \<^verbatim>\<open>argv\<close> NULL the
  count is 0 and the loop reads nothing.
\<close>

definition linker_argv :: "string \<Rightarrow> string option \<Rightarrow> ptr_array option \<Rightarrow> ptr_array" where
  "linker_argv linker filename argv =
     (let argc = argc_of argv;
          new_argv = replicate (argc + 2) None;
          new_argv = new_argv[0 := Some linker];
          new_argv = new_argv[1 := filename]
      in case argv of
           None \<Rightarrow> new_argv
         | Some a \<Rightarrow> copy_args a argc 1 new_argv)"

definition execve_via_linker ::
  "world \<Rightarrow> (real_call \<Rightarrow> errno option) \<Rightarrow> string option \<Rightarrow> ptr_array option \<Rightarrow> string list option \<Rightarrow> exec_result" where
  "execve_via_linker w real_execve_fn filename argv envp =
     (let linker = select_system_linker w;
          argc = argc_of argv
      in if calloc_ok w (argc + 2)
         then call_real_execve real_execve_fn (Some linker)
                (Some (linker_argv linker filename argv)) (envp_or_environ w envp)
         else ([], Failed ENOMEM))"

text \<open>\<^verbatim>\<open>for (size_t j = 1; j < argc; j++) new_argv[i++] = argv[j];\<close>\<close>

function copy_script_args :: "ptr_array \<Rightarrow> nat \<Rightarrow> nat \<Rightarrow> nat \<Rightarrow> ptr_array \<Rightarrow> ptr_array" where
  "copy_script_args argv argc j i new_argv =
     (if j < argc then copy_script_args argv argc (j + 1) (i + 1) (new_argv[i := argv ! j])
      else new_argv)"
  by pat_completeness auto
termination
  by (relation "measure (\<lambda>(argv, argc, j, i, new_argv). argc - j)") auto

text \<open>
  The vector \<^verbatim>\<open>exec_script_via_linker\<close> builds in the block of
  \<^verbatim>\<open>calloc(argc + fixed, sizeof(char *))\<close>; \<open>i\<close> is the running index of the source.
\<close>

definition script_argv ::
  "string \<Rightarrow> string \<Rightarrow> shebang_info_t \<Rightarrow> string option \<Rightarrow> ptr_array option \<Rightarrow> ptr_array" where
  "script_argv linker interp sb filename argv =
     (let argc = argc_of argv;
          fixed = (if has_arg sb then 4 else 3);
          new_argv = replicate (argc + fixed) None;
          new_argv = new_argv[0 := Some linker];
          new_argv = new_argv[1 := Some interp];
          (i, new_argv) = (if has_arg sb then (3, new_argv[2 := Some (arg sb)]) else (2, new_argv));
          new_argv = new_argv[i := filename];
          i = i + 1
      in case argv of
           None \<Rightarrow> new_argv
         | Some a \<Rightarrow> copy_script_args a argc 1 i new_argv)"

definition exec_script_via_linker ::
  "world \<Rightarrow> (real_call \<Rightarrow> errno option) \<Rightarrow> string option \<Rightarrow> shebang_info_t \<Rightarrow> ptr_array option \<Rightarrow> string list option \<Rightarrow> exec_result" where
  "exec_script_via_linker w real_execve_fn filename sb argv envp =
     (if interpreter sb = [] then ([], Failed ENOEXEC)
      else
        (let interp =
               (case map_legacy_termux_usr_path w (Some (interpreter sb)) PATH_MAX of
                  Some remapped_interpreter \<Rightarrow> remapped_interpreter
                | None \<Rightarrow> interpreter sb)
         in if path_in_prefix w (Some interp) then
              (let linker = select_system_linker w;
                   argc = argc_of argv;
                   fixed = (if has_arg sb then 4 else 3)
               in if calloc_ok w (argc + fixed)
                  then call_real_execve real_execve_fn (Some linker)
                         (Some (script_argv linker interp sb filename argv)) (envp_or_environ w envp)
                  else ([], Failed ENOMEM))
            else call_real_execve real_execve_fn filename argv (envp_or_environ w envp)))"

subsection \<open>Entry points\<close>

text \<open>
  \<^verbatim>\<open>init_real_execve\<close> leaves in \<^verbatim>\<open>real_execve_fn\<close> what \<^verbatim>\<open>dlsym\<close> returns
  (the field \<open>dlsym_execve\<close>, \<open>None\<close> for NULL).
\<close>

definition effective_filename :: "world \<Rightarrow> string option \<Rightarrow> string option" where
  "effective_filename w filename =
     (case map_legacy_termux_usr_path w filename PATH_MAX of
        Some remapped_filename \<Rightarrow> Some remapped_filename
      | None \<Rightarrow> filename)"

definition execve :: "world \<Rightarrow> string option \<Rightarrow> ptr_array option \<Rightarrow> string list option \<Rightarrow> exec_result" where
  "execve w filename argv envp =
     (case dlsym_execve w of
        None \<Rightarrow> ([], Failed ENOSYS)
      | Some real_execve_fn \<Rightarrow>
          (let eff = effective_filename w filename
           in if should_wrap_elf w eff then execve_via_linker w real_execve_fn eff argv envp
              else
                (case (if path_in_prefix w eff then parse_shebang w eff else None) of
                   Some sb \<Rightarrow> exec_script_via_linker w real_execve_fn eff sb argv envp
                 | None \<Rightarrow> call_real_execve real_execve_fn eff argv (envp_or_environ w envp))))"

subsection \<open>Directory search\<close>

text \<open>
  One call of \<^verbatim>\<open>strtok_r\<close> on the rest \<open>s\<close> of the string: leading delimiters are
  skipped; at the end of the string there is no token; otherwise the token runs to the next
  delimiter, and the scan resumes after that delimiter.
\<close>

definition strtok_r :: "string \<Rightarrow> string \<Rightarrow> (string \<times> string) option" where
  "strtok_r s delim =
     (let t = dropWhile (\<lambda>c. c \<in> set delim) s
      in if t = [] then None
         else Some (takeWhile (\<lambda>c. c \<notin> set delim) t,
                    drop 1 (dropWhile (\<lambda>c. c \<notin> set delim) t)))"

text \<open>The tokens of the loop \<^verbatim>\<open>for (token = strtok_r(s, d, &sp); token; token = strtok_r(NULL, d, &sp))\<close>.\<close>

function strtok_tokens :: "string \<Rightarrow> string \<Rightarrow> string list" where
  "strtok_tokens s delim =
     (case strtok_r s delim of
        None \<Rightarrow> []
      | Some (token, rest) \<Rightarrow> token # strtok_tokens rest delim)"
  by pat_completeness auto
termination
proof (relation "measure (\<lambda>(s, delim). length s)")
  show "wf (measure (\<lambda>(s, delim). length s))"
    by simp
next
  fix s delim :: string and x2 :: "string \<times> string" and token rest :: string
  assume tok: "strtok_r s delim = Some x2" and x2: "(token, rest) = x2"
  define t where "t = dropWhile (\<lambda>c. c \<in> set delim) s"
  from tok x2 have ne: "t \<noteq> []"
    and rest: "rest = drop 1 (dropWhile (\<lambda>c. c \<notin> set delim) t)"
    by (auto simp: strtok_r_def t_def Let_def split: if_splits)
  from ne obtain c cs where t: "t = c # cs"
    by (cases t) auto
  have "length rest \<le> length cs"
    using length_dropWhile_le [of "\<lambda>c. c \<notin> set delim" cs]
    by (auto simp: rest t)
  moreover have "length t \<le> length s"
    by (simp add: t_def length_dropWhile_le)
  ultimately have "length rest < length s"
    by (simp add: t)
  then show "((rest, delim), (s, delim)) \<in> measure (\<lambda>(s, delim). length s)"
    by simp
qed

text \<open>
  The body of the loop over the tokens, with the remembered \<^verbatim>\<open>saved_errno\<close>. A call
  of \<open>execve\<close> that replaces the image ends the search; one that returns has set
  \<^verbatim>\<open>errno\<close>.
\<close>

fun search_loop ::
  "world \<Rightarrow> string list \<Rightarrow> string \<Rightarrow> ptr_array option \<Rightarrow> string list option \<Rightarrow> errno \<Rightarrow> exec_result" where
  "search_loop w [] file argv envp saved_errno = ([], Failed saved_errno)"
| "search_loop w (token # rest) file argv envp saved_errno =
     (let dir = (if token \<noteq> [] then token else ''.'');
          candidate = dir @ ''/'' @ file;
          n = length candidate
      in if n = 0 \<or> PATH_MAX \<le> n then search_loop w rest file argv envp saved_errno
         else
           (case execve w (Some candidate) argv envp of
              (calls, NoReturn) \<Rightarrow> (calls, NoReturn)
            | (calls, Failed e) \<Rightarrow>
                (let later = search_loop w rest file argv envp
                               (if e \<noteq> ENOENT \<and> e \<noteq> ENOTDIR then e else saved_errno)
                 in (calls @ fst later, snd later))))"

definition search_path_env :: "world \<Rightarrow> string" where
  "search_path_env w =
     (case getenv w ''PATH'' of
        None \<Rightarrow> ''/system/bin''
      | Some path_env \<Rightarrow> if path_env = [] then ''/system/bin'' else path_env)"

definition search_path_and_exec ::
  "world \<Rightarrow> string option \<Rightarrow> ptr_array option \<Rightarrow> string list option \<Rightarrow> exec_result" where
  "search_path_and_exec w file argv envp =
     (case file of
        None \<Rightarrow> ([], Failed ENOENT)
      | Some f \<Rightarrow>
          if f = [] then ([], Failed ENOENT)
          else if strchr_found f CHR ''/'' then execve w (Some f) argv envp
          else
            (let path_env = search_path_env w
             in if strdup_ok w path_env
                then search_loop w (strtok_tokens path_env '':'') f argv envp ENOENT
                else ([], Failed ENOMEM)))"

definition execv :: "world \<Rightarrow> string option \<Rightarrow> ptr_array option \<Rightarrow> exec_result" where
  "execv w path argv = execve w path argv (environ w)"

definition execvp :: "world \<Rightarrow> string option \<Rightarrow> ptr_array option \<Rightarrow> exec_result" where
  "execvp w file argv = search_path_and_exec w file argv (environ w)"

definition execvpe ::
  "world \<Rightarrow> string option \<Rightarrow> ptr_array option \<Rightarrow> string list option \<Rightarrow> exec_result" where
  "execvpe w file argv envp = search_path_and_exec w file argv (envp_or_environ w envp)"

subsection \<open>Example worlds\<close>

text \<open>
  A world from a list of environment variables, a list of files with their contents and
  the behaviour of the underlying \<^verbatim>\<open>execve\<close>: the 64-bit linker is present,
  \<^verbatim>\<open>dlsym\<close> and every allocation succeed.
\<close>

definition mk_world ::
  "(string \<times> string) list \<Rightarrow> (string \<times> char list) list \<Rightarrow> (real_call \<Rightarrow> errno option) \<Rightarrow> world" where
  "mk_world env fs r =
     \<lparr>getenv = map_of env,
      environ = Some (map (\<lambda>(k, v). k @ ''='' @ v) env),
      files = (\<lambda>p. case map_of fs p of None \<Rightarrow> NoOpen | Some b \<Rightarrow> Bytes b),
      access_x = (\<lambda>p. p = ''/system/bin/linker64''),
      dlsym_execve = Some r,
      calloc_ok = (\<lambda>n. True),
      strdup_ok = (\<lambda>s. True)\<rparr>"

text \<open>
  An environment rooted at \<^verbatim>\<open>/p/usr\<close> with a native binary, a script whose interpreter
  is inside the environment and one whose interpreter is the system shell. \<^verbatim>\<open>PATH\<close> is
  not set, and the underlying \<^verbatim>\<open>execve\<close> fails with \<^verbatim>\<open>EACCES\<close>.
\<close>

definition demo_world :: world where
  "demo_world =
     mk_world [(''PREFIX'', ''/p/usr'')]
       [(''/p/usr/bin/ls'', elf_magic @ ''...''),
        (''/p/usr/bin/inner'', ''#!/p/usr/bin/sh -e'' @ [CHR 0x0A] @ ''true''),
        (''/p/usr/bin/outer'', ''#!/system/bin/sh'' @ [CHR 0x0A] @ ''true'')]
       (\<lambda>c. Some EACCES)"

text \<open>
  A search list of two directories, outside any managed environment: the underlying
  \<^verbatim>\<open>execve\<close> fails with \<^verbatim>\<open>EACCES\<close> on \<^verbatim>\<open>/a/tool\<close> and with \<^verbatim>\<open>ENOENT\<close>
  everywhere else.
\<close>

definition search_world :: world where
  "search_world =
     mk_world [(''PATH'', ''/a:/b'')] []
       (\<lambda>c. if call_file c = Some ''/a/tool'' then Some EACCES else Some ENOENT)"

text \<open>
  A search list of three directories: the underlying \<^verbatim>\<open>execve\<close> succeeds on
  \<^verbatim>\<open>/b/tool\<close> and fails with \<^verbatim>\<open>ENOENT\<close> everywhere else.
\<close>

definition found_world :: world where
  "found_world =
     mk_world [(''PATH'', ''/a:/b:/c'')] []
       (\<lambda>c. if call_file c = Some ''/b/tool'' then None else Some ENOENT)"


subsection \<open>Descriptions used in the statements\<close>

text \<open>
  The candidates the loop builds from its tokens: \<open>dir/name\<close> for each token in order,
  those of \<^verbatim>\<open>PATH_MAX\<close> bytes or more left out.
\<close>

definition search_candidates :: "string \<Rightarrow> string list \<Rightarrow> string list" where
  "search_candidates file tokens =
     filter (\<lambda>candidate. length candidate < PATH_MAX)
       (map (\<lambda>token. (if token \<noteq> [] then token else ''.'') @ ''/'' @ file) tokens)"

text \<open>The errors among the outcomes that are neither \<^verbatim>\<open>ENOENT\<close> nor \<^verbatim>\<open>ENOTDIR\<close>, in order.\<close>

fun specific_errors :: "outcome list \<Rightarrow> errno list" where
  "specific_errors [] = []"
| "specific_errors (NoReturn # outs) = specific_errors outs"
| "specific_errors (Failed e # outs) =
     (if e \<noteq> ENOENT \<and> e \<noteq> ENOTDIR then e # specific_errors outs else specific_errors outs)"

text \<open>
  The segments of a search list: the pieces between the separators, empty ones included,
  from left to right.
\<close>

fun split_on :: "char \<Rightarrow> string \<Rightarrow> string list" where
  "split_on d [] = [[]]"
| "split_on d (c # cs) =
     (if c = d then [] # split_on d cs
      else (c # hd (split_on d cs)) # tl (split_on d cs))"

text \<open>
  The candidates of a search list as the specification describes them: \<open>dir/name\<close> for
  each segment in order, those of \<^verbatim>\<open>PATH_MAX\<close> bytes or more left out.
\<close>

definition path_candidates :: "string \<Rightarrow> string \<Rightarrow> string list" where
  "path_candidates name path_env =
     filter (\<lambda>candidate. length candidate < PATH_MAX)
       (map (\<lambda>dir. dir @ ''/'' @ name) (split_on (CHR '':'') path_env))"

section \<open>Properties\<close>

subsection \<open>Auxiliary facts\<close>

declare copy_args.simps [simp del]

declare copy_script_args.simps [simp del]

declare strtok_tokens.simps [simp del]

lemma starts_with_iff: "starts_with (Some v) (Some p) \<longleftrightarrow> (\<exists>s. v = p @ s)"
proof
  assume "starts_with (Some v) (Some p)"
  then have "v = p @ drop (length p) v"
    by (metis append_take_drop_id starts_with.simps(1))
  then show "\<exists>s. v = p @ s" ..
next
  assume "\<exists>s. v = p @ s"
  then show "starts_with (Some v) (Some p)"
    by auto
qed

lemma legacy_prefixes_disjoint: "\<not> starts_with (Some (legacy_user @ s)) (Some legacy_data)"
  by (simp add: legacy_user_def legacy_data_def)

lemma map_legacy_Some_iff:
  "map_legacy_termux_usr_path w path out_size = Some q \<longleftrightarrow>
     (\<exists>p root suffix. path = Some p \<and> getenv w ''PREFIX'' = Some root \<and> root \<noteq> [] \<and>
        (p = legacy_data @ suffix \<or> p = legacy_user @ suffix) \<and>
        q = root @ suffix \<and> length (root @ suffix) < out_size)"
  (is "?L \<longleftrightarrow> ?R")
proof
  assume ?L
  then obtain p root where p: "path = Some p" and root: "getenv w ''PREFIX'' = Some root" "root \<noteq> []"
    by (auto simp: map_legacy_termux_usr_path_def split: option.splits if_splits)
  show ?R
  proof (cases "starts_with (Some p) (Some legacy_data)")
    case True
    then obtain s where s: "p = legacy_data @ s"
      using starts_with_iff by blast
    with \<open>?L\<close> p root True show ?thesis
      by (auto simp: map_legacy_termux_usr_path_def Let_def split: if_splits)
  next
    case False
    with \<open>?L\<close> p root have u: "starts_with (Some p) (Some legacy_user)"
      by (auto simp: map_legacy_termux_usr_path_def Let_def split: if_splits)
    then obtain s where s: "p = legacy_user @ s"
      using starts_with_iff by blast
    with \<open>?L\<close> p root False u show ?thesis
      by (auto simp: map_legacy_termux_usr_path_def Let_def split: if_splits)
  qed
next
  assume ?R
  then obtain p root suffix where h: "path = Some p" "getenv w ''PREFIX'' = Some root" "root \<noteq> []"
    "p = legacy_data @ suffix \<or> p = legacy_user @ suffix" "q = root @ suffix"
    "length (root @ suffix) < out_size"
    by blast
  from h(4) show ?L
  proof
    assume "p = legacy_data @ suffix"
    with h show ?L
      by (simp add: map_legacy_termux_usr_path_def)
  next
    assume "p = legacy_user @ suffix"
    with h legacy_prefixes_disjoint [of suffix] show ?L
      by (simp add: map_legacy_termux_usr_path_def)
  qed
qed

lemma map_legacy_relative: "take 1 p \<noteq> ''/'' \<Longrightarrow> map_legacy_termux_usr_path w (Some p) out_size = None"
proof -
  assume rel: "take 1 p \<noteq> ''/''"
  have "map_legacy_termux_usr_path w (Some p) out_size \<noteq> Some q" for q
    using rel by (auto simp: map_legacy_Some_iff legacy_data_def legacy_user_def)
  then show ?thesis
    by (cases "map_legacy_termux_usr_path w (Some p) out_size") auto
qed

lemma copy_args_list:
  "i \<le> n \<Longrightarrow> n < length blk \<Longrightarrow>
   copy_args a n i blk = take (i + 1) blk @ map (\<lambda>j. a ! j) [i..<n] @ drop (n + 1) blk"
proof (induction a n i blk rule: copy_args.induct)
  case (1 argv argc i new_argv)
  show ?case
  proof (cases "i < argc")
    case False
    with "1.prems" have "i = argc" by simp
    then show ?thesis
      by (simp add: copy_args.simps)
  next
    case True
    let ?blk = "new_argv[i + 1 := argv ! i]"
    have step: "copy_args argv argc i new_argv = copy_args argv argc (i + 1) ?blk"
      using True by (subst copy_args.simps) simp
    have ih: "copy_args argv argc (i + 1) ?blk =
        take (i + 1 + 1) ?blk @ map (\<lambda>j. argv ! j) [i + 1..<argc] @ drop (argc + 1) ?blk"
      using "1.IH" [OF True] True "1.prems" by simp
    have tk: "take (i + 1 + 1) ?blk = take (i + 1) new_argv @ [argv ! i]"
      using True "1.prems" by (simp add: take_Suc_conv_app_nth)
    have dr: "drop (argc + 1) ?blk = drop (argc + 1) new_argv"
      using True by simp
    have up: "[i..<argc] = i # [i + 1..<argc]"
      using True by (simp add: upt_conv_Cons)
    show ?thesis
      unfolding step ih tk dr up by simp
  qed
qed

lemma argv_count_terminated: "argv_count (map Some args @ None # junk) = length args"
  by (induction args) auto

lemma terminated_nth: "j < length args \<Longrightarrow> (map Some args @ None # junk) ! j = Some (args ! j)"
  by (simp add: nth_append)

lemma map_nth_tail: "map (\<lambda>j. (map Some args @ None # junk) ! j) [1..<length args] = map Some (tl args)"
proof -
  have "map (\<lambda>j. (map Some args @ None # junk) ! j) [1..<length args]
      = map (\<lambda>j. Some (args ! j)) [1..<length args]"
    by (rule map_cong) (auto simp: terminated_nth)
  also have "\<dots> = map Some (map (\<lambda>j. args ! j) [1..<length args])"
    by simp
  also have "map (\<lambda>j. args ! j) [1..<length args] = drop 1 args"
    by (rule nth_equalityI) auto
  finally show ?thesis
    by (simp add: drop_Suc)
qed

lemma linker_argv_terminated:
  assumes "args \<noteq> []"
  shows "linker_argv linker filename (Some (map Some args @ None # junk))
       = Some linker # filename # map Some (tl args) @ [None]"
proof -
  let ?a = "map Some args @ None # junk"
  let ?n = "length args"
  let ?blk = "(replicate (?n + 2) None)[0 := Some linker, 1 := filename]"
  have n: "1 \<le> ?n"
    using assms by (cases args) auto
  have "linker_argv linker filename (Some ?a) = copy_args ?a ?n 1 ?blk"
    by (simp add: linker_argv_def argc_of_def argv_count_terminated Let_def)
  also have "\<dots> = take 2 ?blk @ map (\<lambda>j. ?a ! j) [1..<?n] @ drop (?n + 1) ?blk"
    using copy_args_list [of 1 ?n ?blk ?a] n by simp
  also have "take 2 ?blk = [Some linker, filename]"
    by (simp add: numeral_2_eq_2 replicate_Suc [symmetric] del: replicate_Suc) (simp add: take_Suc_conv_app_nth)
  also have "drop (?n + 1) ?blk = [None]"
  proof -
    from n obtain m where m: "?n = Suc m"
      by (cases "?n") auto
    have "drop m (x # replicate m x) = [x]" for x :: "string option"
      by (induction m) auto
    then show ?thesis
      unfolding m by simp
  qed
  finally show ?thesis
    using map_nth_tail [of args junk] by simp
qed

lemma copy_args_take: "k \<le> i + 1 \<Longrightarrow> take k (copy_args a n i blk) = take k blk"
proof (induction a n i blk rule: copy_args.induct)
  case (1 argv argc i new_argv)
  show ?case
  proof (cases "i < argc")
    case False
    then show ?thesis
      by (simp add: copy_args.simps)
  next
    case True
    have "take k (copy_args argv argc i new_argv)
        = take k (copy_args argv argc (i + 1) (new_argv[i + 1 := argv ! i]))"
      using True by (subst copy_args.simps) simp
    also have "\<dots> = take k (new_argv[i + 1 := argv ! i])"
      using "1.IH" [OF True] "1.prems" by simp
    also have "\<dots> = take k new_argv"
      using "1.prems" by simp
    finally show ?thesis .
  qed
qed

lemma linker_argv_head: "take 2 (linker_argv linker filename argv) = [Some linker, filename]"
proof -
  have blk: "take 2 ((replicate (n + 2) None)[0 := Some linker, 1 := filename]) = [Some linker, filename]"
    for n
    by (simp add: numeral_2_eq_2)
  show ?thesis
  proof (cases argv)
    case None
    then show ?thesis
      using blk [of 0] by (simp add: linker_argv_def argc_of_def Let_def)
  next
    case (Some a)
    then show ?thesis
      using blk [of "argv_count a"] copy_args_take [of 2 1 a "argv_count a"]
      by (simp add: linker_argv_def argc_of_def Let_def)
  qed
qed

lemma should_wrap_elf_iff:
  "should_wrap_elf w (Some f) \<longleftrightarrow>
     take 1 f = ''/'' \<and> \<not> is_linker_path (Some f) \<and>
     \<not> starts_with (Some f) (Some ''/system/'') \<and> \<not> starts_with (Some f) (Some ''/apex/'') \<and>
     path_in_prefix w (Some f) \<and> is_elf_binary w (Some f)"
  by (simp add: should_wrap_elf_def)

lemma is_elf_binary_iff:
  "is_elf_binary w (Some f) \<longleftrightarrow> (\<exists>content. files w f = Bytes content \<and> take 4 content = elf_magic)"
proof -
  have "length (take 4 content) = 4 \<and> take 4 content = elf_magic \<longleftrightarrow> take 4 content = elf_magic"
    for content :: "char list"
  proof -
    have "length (take 4 content) = 4" if h: "take 4 content = elf_magic"
    proof -
      have "length (take 4 content) = length elf_magic"
        by (simp only: h)
      also have "\<dots> = 4"
        by (simp add: elf_magic_def)
      finally show ?thesis .
    qed
    then show ?thesis
      by blast
  qed
  then show ?thesis
    by (cases "files w f") (simp_all add: is_elf_binary_def open_read_def Let_def)
qed

lemma parse_shebang_SomeD:
  assumes "parse_shebang w path = Some sb"
  obtains f content where "path = Some f" and "files w f = Bytes content"
    and "take 2 content = ''#!''"
    and "parse_shebang_line (takeWhile (\<lambda>c. c \<noteq> CHR 0x00) (drop 2 (take 511 content))) = Some sb"
proof -
  from assms obtain content where c: "open_read w path = Bytes content"
    by (auto simp: parse_shebang_def split: file_read.splits)
  then obtain f where f: "path = Some f" "files w f = Bytes content"
    by (auto simp: open_read_def split: option.splits)
  from assms c have t: "take 2 (take 511 content) = ''#!''"
    and l: "parse_shebang_line (takeWhile (\<lambda>c. c \<noteq> CHR 0x00) (drop 2 (take 511 content))) = Some sb"
    by (auto simp: parse_shebang_def Let_def split: if_splits)
  from t have "take 2 content = ''#!''"
    by simp
  with f l that show thesis
    by blast
qed

lemma parse_shebang_line_SomeD:
  assumes "parse_shebang_line s = Some sb"
  obtains p tok e a where "p = dropWhile is_blank s"
    and "tok = takeWhile (\<lambda>c. \<not> is_blank c \<and> \<not> is_eol c) p"
    and "e = dropWhile is_blank (drop (length tok) p)"
    and "a = takeWhile (\<lambda>c. \<not> is_eol c) e"
    and "take 1 p = ''/''" and "tok \<noteq> []" and "length tok < PATH_MAX"
    and "sb = (if (e \<noteq> [] \<and> \<not> is_eol (hd e)) \<and> (0 < length a \<and> length a < PATH_MAX)
               then \<lparr>interpreter = tok, arg = a, has_arg = True\<rparr>
               else \<lparr>interpreter = tok, arg = [], has_arg = False\<rparr>)"
proof -
  define p where "p = dropWhile is_blank s"
  define tok where "tok = takeWhile (\<lambda>c. \<not> is_blank c \<and> \<not> is_eol c) p"
  define e where "e = dropWhile is_blank (drop (length tok) p)"
  define a where "a = takeWhile (\<lambda>c. \<not> is_eol c) e"
  have eq: "parse_shebang_line s =
      (if take 1 p = ''/'' then
         (if length tok = 0 \<or> PATH_MAX \<le> length tok then None
          else if e \<noteq> [] \<and> \<not> is_eol (hd e) then
            (if 0 < length a \<and> length a < PATH_MAX
             then Some \<lparr>interpreter = tok, arg = a, has_arg = True\<rparr>
             else Some \<lparr>interpreter = tok, arg = [], has_arg = False\<rparr>)
          else Some \<lparr>interpreter = tok, arg = [], has_arg = False\<rparr>)
       else None)"
    unfolding parse_shebang_line_def Let_def p_def tok_def e_def a_def ..
  from assms have "take 1 p = ''/''" and "tok \<noteq> []" and "length tok < PATH_MAX"
    and "sb = (if (e \<noteq> [] \<and> \<not> is_eol (hd e)) \<and> (0 < length a \<and> length a < PATH_MAX)
               then \<lparr>interpreter = tok, arg = a, has_arg = True\<rparr>
               else \<lparr>interpreter = tok, arg = [], has_arg = False\<rparr>)"
    unfolding eq by (auto split: if_splits)
  with that [of p tok e a] p_def tok_def e_def a_def show thesis
    by blast
qed

lemma parse_shebang_line_interpreter:
  assumes "parse_shebang_line s = Some sb"
  shows "interpreter sb \<noteq> [] \<and> take 1 (interpreter sb) = ''/'' \<and> length (interpreter sb) < PATH_MAX"
proof -
  from assms obtain p tok e a where tok: "tok = takeWhile (\<lambda>c. \<not> is_blank c \<and> \<not> is_eol c) p"
    and sl: "take 1 p = ''/''" and ne: "tok \<noteq> []" and len: "length tok < PATH_MAX"
    and sb: "sb = (if (e \<noteq> [] \<and> \<not> is_eol (hd e)) \<and> (0 < length a \<and> length a < PATH_MAX)
               then \<lparr>interpreter = tok, arg = a, has_arg = True\<rparr>
               else \<lparr>interpreter = tok, arg = [], has_arg = False\<rparr>)"
    by (rule parse_shebang_line_SomeD)
  from sb have i: "interpreter sb = tok"
    by (simp split: if_splits)
  from sl obtain r where p: "p = CHR ''/'' # r"
    by (cases p) auto
  have "take 1 tok = ''/''"
    unfolding tok p by (simp add: is_blank_def is_eol_def)
  with ne len i show ?thesis
    by simp
qed

lemma shebang_not_elf:
  assumes "parse_shebang w path = Some sb"
  shows "\<not> is_elf_binary w path"
proof -
  from assms obtain f content where f: "path = Some f" "files w f = Bytes content"
    and t: "take 2 content = ''#!''"
    by (rule parse_shebang_SomeD)
  have "take 4 content \<noteq> elf_magic"
  proof
    assume "take 4 content = elf_magic"
    then have "take 2 (take 4 content) = take 2 elf_magic"
      by simp
    with t show False
      by (simp add: elf_magic_def)
  qed
  with f show ?thesis
    by (simp add: is_elf_binary_iff)
qed

lemma call_real_execve_envp:
  "c \<in> set (fst (call_real_execve r f a e)) \<Longrightarrow> call_envp c = e"
  by (simp add: call_real_execve_def Let_def)

lemma execve_calls_envp:
  assumes "c \<in> set (fst (execve w filename argv envp))"
  shows "call_envp c = envp_or_environ w envp"
proof -
  have via: "c \<in> set (fst (execve_via_linker w r f argv envp)) \<Longrightarrow> call_envp c = envp_or_environ w envp"
    for r f
    by (cases "calloc_ok w (argc_of argv + 2)")
       (auto simp: execve_via_linker_def Let_def dest: call_real_execve_envp)
  have script: "c \<in> set (fst (exec_script_via_linker w r f sb argv envp)) \<Longrightarrow>
      call_envp c = envp_or_environ w envp" for r f sb
    by (auto simp: exec_script_via_linker_def Let_def dest: call_real_execve_envp split: if_splits)
  show ?thesis
  proof (cases "dlsym_execve w")
    case None
    with assms show ?thesis
      by (simp add: execve_def)
  next
    case (Some r)
    let ?eff = "effective_filename w filename"
    show ?thesis
    proof (cases "should_wrap_elf w ?eff")
      case True
      with assms Some have "c \<in> set (fst (execve_via_linker w r ?eff argv envp))"
        by (simp add: execve_def Let_def)
      then show ?thesis
        by (rule via)
    next
      case False
      show ?thesis
      proof (cases "if path_in_prefix w ?eff then parse_shebang w ?eff else None")
        case None
        with assms Some False
        have "c \<in> set (fst (call_real_execve r ?eff argv (envp_or_environ w envp)))"
          by (simp add: execve_def Let_def)
        then show ?thesis
          by (rule call_real_execve_envp)
      next
        case (Some sb)
        with assms \<open>dlsym_execve w = Some r\<close> False
        have "c \<in> set (fst (exec_script_via_linker w r ?eff sb argv envp))"
          by (simp add: execve_def Let_def)
        then show ?thesis
          by (rule script)
      qed
    qed
  qed
qed

lemma search_loop_calls_envp:
  "c \<in> set (fst (search_loop w toks file argv envp saved)) \<Longrightarrow> call_envp c = envp_or_environ w envp"
proof (induction toks arbitrary: saved)
  case Nil
  then show ?case by simp
next
  case (Cons token rest)
  let ?cand = "(if token \<noteq> [] then token else ''.'') @ ''/'' @ file"
  show ?case
  proof (cases "length ?cand = 0 \<or> PATH_MAX \<le> length ?cand")
    case True
    with Cons.prems have "c \<in> set (fst (search_loop w rest file argv envp saved))"
      by (simp add: Let_def)
    then show ?thesis
      by (rule Cons.IH)
  next
    case False
    obtain calls out where ex: "execve w (Some ?cand) argv envp = (calls, out)"
      by (cases "execve w (Some ?cand) argv envp")
    have calls: "c \<in> set calls \<Longrightarrow> call_envp c = envp_or_environ w envp"
      using execve_calls_envp [of c w "Some ?cand" argv envp] ex by simp
    show ?thesis
    proof (cases out)
      case NoReturn
      with Cons.prems False ex have "c \<in> set calls"
        by (simp add: Let_def)
      then show ?thesis
        by (rule calls)
    next
      case (Failed e)
      let ?saved = "if e \<noteq> ENOENT \<and> e \<noteq> ENOTDIR then e else saved"
      from Cons.prems False ex Failed
      have "c \<in> set calls \<or> c \<in> set (fst (search_loop w rest file argv envp ?saved))"
        by (simp add: Let_def)
      then show ?thesis
        using calls Cons.IH by blast
    qed
  qed
qed

lemma search_path_and_exec_calls_envp:
  assumes "c \<in> set (fst (search_path_and_exec w file argv envp))"
  shows "call_envp c = envp_or_environ w envp"
proof (cases "file")
  case None
  with assms show ?thesis
    by (simp add: search_path_and_exec_def)
next
  case (Some f)
  show ?thesis
  proof (cases "f = []")
    case True
    with assms Some show ?thesis
      by (simp add: search_path_and_exec_def)
  next
    case False
    show ?thesis
    proof (cases "strchr_found f CHR ''/''")
      case True
      with assms Some False have "c \<in> set (fst (execve w (Some f) argv envp))"
        by (simp add: search_path_and_exec_def)
      then show ?thesis
        by (rule execve_calls_envp)
    next
      case nf: False
      show ?thesis
      proof (cases "strdup_ok w (search_path_env w)")
        case True
        with assms Some False nf
        have "c \<in> set (fst (search_loop w (strtok_tokens (search_path_env w) '':'') f argv envp ENOENT))"
          by (simp add: search_path_and_exec_def Let_def)
        then show ?thesis
          by (rule search_loop_calls_envp)
      next
        case False
        with assms Some \<open>f \<noteq> []\<close> nf show ?thesis
          by (simp add: search_path_and_exec_def Let_def)
      qed
    qed
  qed
qed

lemma singleton_map: "length xs = 1 \<Longrightarrow> \<forall>c \<in> set xs. f c = v \<Longrightarrow> map f xs = [v]"
  by (cases xs) auto

lemma search_candidates_Nil: "search_candidates name [] = []"
  by (simp add: search_candidates_def)

lemma search_candidates_Cons:
  assumes "cand = (if token \<noteq> [] then token else ''.'') @ ''/'' @ name"
  shows "search_candidates name (token # rest) =
     (if length cand < PATH_MAX then cand # search_candidates name rest
      else search_candidates name rest)"
  using assms by (simp add: search_candidates_def)

lemma search_loop_skip:
  assumes "cand = (if token \<noteq> [] then token else ''.'') @ ''/'' @ name"
    and "\<not> length cand < PATH_MAX"
  shows "search_loop w (token # rest) name argv envp saved = search_loop w rest name argv envp saved"
  using assms by (simp add: Let_def)

lemma search_loop_fail:
  assumes "cand = (if token \<noteq> [] then token else ''.'') @ ''/'' @ name"
    and "length cand < PATH_MAX"
    and "execve w (Some cand) argv envp = (calls, Failed e)"
  shows "search_loop w (token # rest) name argv envp saved =
           (calls @ fst (search_loop w rest name argv envp (if e \<noteq> ENOENT \<and> e \<noteq> ENOTDIR then e else saved)),
            snd (search_loop w rest name argv envp (if e \<noteq> ENOENT \<and> e \<noteq> ENOTDIR then e else saved)))"
  using assms by (simp add: Let_def)

lemma search_loop_replaced:
  assumes "cand = (if token \<noteq> [] then token else ''.'') @ ''/'' @ name"
    and "length cand < PATH_MAX"
    and "execve w (Some cand) argv envp = (calls, NoReturn)"
  shows "search_loop w (token # rest) name argv envp saved = (calls, NoReturn)"
  using assms by (simp add: Let_def)

lemma returned_cases:
  assumes "snd r \<noteq> NoReturn"
  obtains calls e where "r = (calls, Failed e)"
  using assms by (cases r; cases "snd r") auto

lemma search_loop_all_fail:
  assumes "\<forall>c \<in> set (search_candidates name toks). snd (execve w (Some c) argv envp) \<noteq> NoReturn"
  shows "search_loop w toks name argv envp saved =
           (concat (map (\<lambda>c. fst (execve w (Some c) argv envp)) (search_candidates name toks)),
            Failed (last (saved # specific_errors
                      (map (\<lambda>c. snd (execve w (Some c) argv envp)) (search_candidates name toks)))))"
  using assms
proof (induction toks arbitrary: saved)
  case Nil
  then show ?case
    by (simp add: search_candidates_Nil)
next
  case (Cons token rest)
  define cand where "cand = (if token \<noteq> [] then token else ''.'') @ ''/'' @ name"
  show ?case
  proof (cases "length cand < PATH_MAX")
    case False
    then have sc: "search_candidates name (token # rest) = search_candidates name rest"
      using search_candidates_Cons [OF cand_def] by simp
    show ?thesis
      using Cons.IH [of saved] Cons.prems
      unfolding sc search_loop_skip [OF cand_def False] .
  next
    case True
    then have sc: "search_candidates name (token # rest) = cand # search_candidates name rest"
      using search_candidates_Cons [OF cand_def] by simp
    from Cons.prems have nr: "snd (execve w (Some cand) argv envp) \<noteq> NoReturn"
      and rest: "\<forall>c \<in> set (search_candidates name rest). snd (execve w (Some c) argv envp) \<noteq> NoReturn"
      unfolding sc by simp_all
    from nr obtain calls e where ex: "execve w (Some cand) argv envp = (calls, Failed e)"
      by (rule returned_cases)
    show ?thesis
      unfolding sc search_loop_fail [OF cand_def True ex] Cons.IH [OF rest]
      by (simp add: ex)
  qed
qed

lemma search_loop_stops_at_success:
  assumes "search_candidates name toks = pre @ c # post"
    and "\<forall>c' \<in> set pre. snd (execve w (Some c') argv envp) \<noteq> NoReturn"
    and "snd (execve w (Some c) argv envp) = NoReturn"
  shows "search_loop w toks name argv envp saved =
           (concat (map (\<lambda>c. fst (execve w (Some c) argv envp)) (pre @ [c])), NoReturn)"
  using assms
proof (induction toks arbitrary: pre saved)
  case Nil
  then show ?case
    by (simp add: search_candidates_Nil)
next
  case (Cons token rest)
  define cand where "cand = (if token \<noteq> [] then token else ''.'') @ ''/'' @ name"
  show ?case
  proof (cases "length cand < PATH_MAX")
    case False
    then have sc: "search_candidates name (token # rest) = search_candidates name rest"
      using search_candidates_Cons [OF cand_def] by simp
    show ?thesis
      using Cons.IH [of pre saved] Cons.prems
      unfolding sc search_loop_skip [OF cand_def False] by blast
  next
    case True
    then have sc: "search_candidates name (token # rest) = cand # search_candidates name rest"
      using search_candidates_Cons [OF cand_def] by simp
    show ?thesis
    proof (cases pre)
      case Nil
      with Cons.prems(1) have c: "c = cand"
        unfolding sc by simp
      with Cons.prems(3) obtain calls where ex: "execve w (Some cand) argv envp = (calls, NoReturn)"
        by (cases "execve w (Some cand) argv envp") auto
      show ?thesis
        unfolding search_loop_replaced [OF cand_def True ex] using Nil c ex by simp
    next
      case (Cons p pre')
      with Cons.prems(1) have p: "p = cand" and r: "search_candidates name rest = pre' @ c # post"
        unfolding sc by simp_all
      from Cons.prems(2) Cons p have nr: "snd (execve w (Some cand) argv envp) \<noteq> NoReturn"
        and pre': "\<forall>c' \<in> set pre'. snd (execve w (Some c') argv envp) \<noteq> NoReturn"
        by simp_all
      from nr obtain calls e where ex: "execve w (Some cand) argv envp = (calls, Failed e)"
        by (rule returned_cases)
      show ?thesis
        unfolding search_loop_fail [OF cand_def True ex] Cons.IH [OF r pre' Cons.prems(3)]
        using Cons p ex by simp
    qed
  qed
qed















lemma split_on_ne: "split_on d s \<noteq> []"
  by (induction s) auto

lemma split_on_unfold:
  "split_on d s = takeWhile (\<lambda>c. c \<noteq> d) s #
     (case dropWhile (\<lambda>c. c \<noteq> d) s of [] \<Rightarrow> [] | x # r \<Rightarrow> split_on d r)"
proof (induction s)
  case Nil
  show ?case by simp
next
  case (Cons c cs)
  show ?case
  proof (cases "c = d")
    case True
    then show ?thesis by simp
  next
    case False
    have "split_on d (c # cs) = (c # hd (split_on d cs)) # tl (split_on d cs)"
      using False by simp
    also have "hd (split_on d cs) = takeWhile (\<lambda>c. c \<noteq> d) cs"
      by (subst Cons.IH) simp
    also have "tl (split_on d cs) = (case dropWhile (\<lambda>c. c \<noteq> d) cs of [] \<Rightarrow> [] | x # r \<Rightarrow> split_on d r)"
      by (subst Cons.IH) simp
    finally show ?thesis
      using False by simp
  qed
qed

lemma strtok_tokens_segments:
  "[] \<notin> set (split_on d s) \<Longrightarrow> strtok_tokens s [d] = split_on d s"
proof (induction "length s" arbitrary: s rule: less_induct)
  case less
  define tok where "tok = takeWhile (\<lambda>c. c \<noteq> d) s"
  define rest where "rest = dropWhile (\<lambda>c. c \<noteq> d) s"
  have un: "split_on d s = tok # (case rest of [] \<Rightarrow> [] | x # r \<Rightarrow> split_on d r)"
    unfolding tok_def rest_def by (rule split_on_unfold)
  with less.prems have ne: "tok \<noteq> []"
    by auto
  then obtain c cs where s: "s = c # cs" and c: "c \<noteq> d"
    unfolding tok_def by (cases s) (auto split: if_splits)
  have skip: "dropWhile (\<lambda>c. c \<in> set [d]) s = s"
    unfolding s using c by simp
  have tk: "takeWhile (\<lambda>c. c \<notin> set [d]) s = tok" and dr: "dropWhile (\<lambda>c. c \<notin> set [d]) s = rest"
    unfolding tok_def rest_def by simp_all
  have st: "strtok_r s [d] = Some (tok, drop 1 rest)"
    unfolding strtok_r_def Let_def skip tk dr using s by simp
  have step: "strtok_tokens s [d] = tok # strtok_tokens (drop 1 rest) [d]"
    by (subst strtok_tokens.simps) (simp add: st)
  show ?case
  proof (cases rest)
    case Nil
    have "strtok_tokens [] [d] = []"
      by (subst strtok_tokens.simps) (simp add: strtok_r_def)
    then show ?thesis
      unfolding step un Nil by simp
  next
    case (Cons x r)
    have "length r < length rest"
      unfolding Cons by simp
    also have "\<dots> \<le> length s"
      unfolding rest_def by (rule length_dropWhile_le)
    finally have lr: "length r < length s" .
    from less.prems have "[] \<notin> set (split_on d r)"
      unfolding un Cons by simp
    with lr have "strtok_tokens r [d] = split_on d r"
      by (rule less.hyps)
    then show ?thesis
      unfolding step un Cons by simp
  qed
qed

lemma search_candidates_segments:
  assumes "[] \<notin> set (split_on (CHR '':'') path_env)"
  shows "search_candidates name (strtok_tokens path_env '':'') = path_candidates name path_env"
proof -
  have h: "map (\<lambda>token. (if token \<noteq> [] then token else ''.'') @ ''/'' @ name) (split_on (CHR '':'') path_env)
      = map (\<lambda>dir. dir @ ''/'' @ name) (split_on (CHR '':'') path_env)"
    using assms by (intro map_cong) auto
  show ?thesis
    unfolding search_candidates_def path_candidates_def strtok_tokens_segments [OF assms] h ..
qed

subsection \<open>Legacy path remapper\<close>

text \<open>
  Claim C5, as amended. The remapper rewrites a path exactly when the variable
  \<^verbatim>\<open>PREFIX\<close> is set and not empty, the path begins with one of the two legacy prefixes,
  and the current root followed by the rest of the path is shorter than \<^verbatim>\<open>PATH_MAX\<close>
  bytes; the result is then the current root followed by the rest of the path, verbatim.
  In every other case it signals no rewrite; in particular it never rewrites a path that
  does not begin with a slash.
\<close>

theorem legacy_remap_exact:
  "(map_legacy_termux_usr_path w path PATH_MAX = Some q \<longleftrightarrow>
      (\<exists>p root suffix. path = Some p \<and> getenv w ''PREFIX'' = Some root \<and> root \<noteq> [] \<and>
         (p = legacy_data @ suffix \<or> p = legacy_user @ suffix) \<and>
         q = root @ suffix \<and> length (root @ suffix) < PATH_MAX)) \<and>
   (\<forall>p. take 1 p \<noteq> ''/'' \<longrightarrow> map_legacy_termux_usr_path w (Some p) PATH_MAX = None)"
  using map_legacy_Some_iff [of w path PATH_MAX q] map_legacy_relative [of _ w PATH_MAX]
  by blast

theorem legacy_remap_exact_witness:
  "map_legacy_termux_usr_path (mk_world [(''PREFIX'', ''/data/data/com.example/files/usr'')] [] (\<lambda>c. None))
     (Some ''/data/data/com.termux/files/usr/bin/ls'') PATH_MAX
     = Some ''/data/data/com.example/files/usr/bin/ls'' \<and>
   map_legacy_termux_usr_path (mk_world [(''PREFIX'', ''/data/data/com.example/files/usr'')] [] (\<lambda>c. None))
     (Some ''usr/bin/ls'') PATH_MAX = None"
proof -
  let ?w = "mk_world [(''PREFIX'', ''/data/data/com.example/files/usr'')] [] (\<lambda>c. None)"
  have env: "getenv ?w ''PREFIX'' = Some ''/data/data/com.example/files/usr''"
    by (simp add: mk_world_def)
  have "\<exists>p root suffix. Some ''/data/data/com.termux/files/usr/bin/ls'' = Some p \<and>
      getenv ?w ''PREFIX'' = Some root \<and> root \<noteq> [] \<and>
      (p = legacy_data @ suffix \<or> p = legacy_user @ suffix) \<and>
      ''/data/data/com.example/files/usr/bin/ls'' = root @ suffix \<and>
      length (root @ suffix) < PATH_MAX"
    by (rule exI [of _ "''/data/data/com.termux/files/usr/bin/ls''"],
        rule exI [of _ "''/data/data/com.example/files/usr''"],
        rule exI [of _ "''/bin/ls''"])
       (simp add: env legacy_data_def PATH_MAX_def)
  moreover have "take 1 ''usr/bin/ls'' \<noteq> ''/''"
    by simp
  ultimately show ?thesis
    using legacy_remap_exact [of ?w "Some ''/data/data/com.termux/files/usr/bin/ls''"
        "''/data/data/com.example/files/usr/bin/ls''"]
    by blast
qed

text \<open>
  Claim C5 as stated fails: with \<^verbatim>\<open>PREFIX=/p\<close>, the absolute path made of the first
  legacy prefix followed by 4096 letters begins with a legacy prefix, yet the remapper
  signals no rewrite, because the rewritten path does not fit the buffer.
\<close>

theorem legacy_remap_long_path_counterexample:
  "getenv (mk_world [(''PREFIX'', ''/p'')] [] (\<lambda>c. None)) ''PREFIX'' = Some ''/p'' \<and>
   starts_with (Some (legacy_data @ replicate 4096 (CHR ''a''))) (Some legacy_data) \<and>
   map_legacy_termux_usr_path (mk_world [(''PREFIX'', ''/p'')] [] (\<lambda>c. None))
     (Some (legacy_data @ replicate 4096 (CHR ''a''))) PATH_MAX = None"
  by (simp add: mk_world_def map_legacy_termux_usr_path_def PATH_MAX_def)

subsection \<open>Argument vector of a wrapped binary\<close>

text \<open>
  Claim C2. For an argument vector \<open>args\<close> with at least one element, terminated by a
  NULL slot and followed by arbitrary memory \<open>junk\<close>, the block built for a wrapped binary
  is the linker path, the target, the arguments after the first in their order, and one
  NULL slot: \<open>length args + 1\<close> arguments. It does not depend on \<open>junk\<close>, the slots after
  the terminator. When the allocation succeeds this block is what the underlying exec
  receives, with the linker as the file.
\<close>

theorem execve_via_linker_argv:
  assumes "args \<noteq> []" and "calloc_ok w (length args + 2)"
  shows "linker_argv (select_system_linker w) (Some target) (Some (map Some args @ None # junk))
           = Some (select_system_linker w) # Some target # map Some (tl args) @ [None] \<and>
         length (Some (select_system_linker w) # Some target # map Some (tl args)) = length args + 1 \<and>
         fst (execve_via_linker w real_execve_fn (Some target) (Some (map Some args @ None # junk)) envp)
           = [\<lparr>call_file = Some (select_system_linker w),
               call_argv = Some (Some (select_system_linker w) # Some target # map Some (tl args) @ [None]),
               call_envp = envp_or_environ w envp\<rparr>]"
proof -
  have blk: "linker_argv (select_system_linker w) (Some target) (Some (map Some args @ None # junk))
      = Some (select_system_linker w) # Some target # map Some (tl args) @ [None]"
    using assms(1) by (rule linker_argv_terminated)
  have len: "length (Some (select_system_linker w) # Some target # map Some (tl args)) = length args + 1"
    using assms(1) by (cases args) auto
  have "argc_of (Some (map Some args @ None # junk)) = length args"
    by (simp add: argc_of_def argv_count_terminated)
  with assms(2) blk have
    "fst (execve_via_linker w real_execve_fn (Some target) (Some (map Some args @ None # junk)) envp)
      = [\<lparr>call_file = Some (select_system_linker w),
          call_argv = Some (Some (select_system_linker w) # Some target # map Some (tl args) @ [None]),
          call_envp = envp_or_environ w envp\<rparr>]"
    by (simp add: execve_via_linker_def call_real_execve_def Let_def)
  with blk len show ?thesis
    by blast
qed

theorem execve_via_linker_argv_witness:
  "fst (execve_via_linker (mk_world [] [] (\<lambda>c. Some ENOENT)) (\<lambda>c. Some ENOENT) (Some ''/p/bin/ls'')
          (Some [Some ''ls'', Some ''-l'', None, Some ''junk'']) None)
     = [\<lparr>call_file = Some ''/system/bin/linker64'',
         call_argv = Some [Some ''/system/bin/linker64'', Some ''/p/bin/ls'', Some ''-l'', None],
         call_envp = Some []\<rparr>]"
proof -
  let ?w = "mk_world [] [] (\<lambda>c. Some ENOENT)"
  have a: "[''ls'', ''-l''] \<noteq> []"
    by simp
  have c: "calloc_ok ?w (length [''ls'', ''-l''] + 2)"
    by (simp add: mk_world_def)
  show ?thesis
    using execve_via_linker_argv [OF a c, of "''/p/bin/ls''" "[Some ''junk'']" "\<lambda>c. Some ENOENT" None]
    by (simp add: mk_world_def select_system_linker_def envp_or_environ_def)
qed

subsection \<open>Exec planner\<close>

text \<open>
  Claim C1. When the underlying \<^verbatim>\<open>execve\<close> has been resolved and the legacy-remapped
  path \<open>f\<close> of the request is absolute, is not the system linker, does not start with
  \<^verbatim>\<open>/system/\<close> or \<^verbatim>\<open>/apex/\<close>, is classified in-environment and names a file whose
  first four bytes are the ELF magic, \<open>execve\<close> takes the wrap-binary branch: it runs
  \<open>execve_via_linker\<close> on \<open>f\<close>, which (when its allocation succeeds) calls the underlying
  \<^verbatim>\<open>execve\<close> on the system linker with a vector whose first two slots are the linker and
  \<open>f\<close>. Nothing is assumed about what the shebang parser would say of the file: the test
  for a native binary comes first and decides.
\<close>

theorem execve_wraps_native_binary:
  assumes "dlsym_execve w = Some real_execve_fn"
    and "effective_filename w filename = Some f"
    and "take 1 f = ''/''"
    and "\<not> is_linker_path (Some f)"
    and "\<not> starts_with (Some f) (Some ''/system/'')"
    and "\<not> starts_with (Some f) (Some ''/apex/'')"
    and "path_in_prefix w (Some f)"
    and "files w f = Bytes content"
    and "take 4 content = elf_magic"
  shows "execve w filename argv envp = execve_via_linker w real_execve_fn (Some f) argv envp \<and>
         execve w filename argv envp =
           (if calloc_ok w (argc_of argv + 2)
            then call_real_execve real_execve_fn (Some (select_system_linker w))
                   (Some (linker_argv (select_system_linker w) (Some f) argv)) (envp_or_environ w envp)
            else ([], Failed ENOMEM)) \<and>
         take 2 (linker_argv (select_system_linker w) (Some f) argv)
           = [Some (select_system_linker w), Some f]"
proof -
  have "is_elf_binary w (Some f)"
    using assms(8,9) is_elf_binary_iff by blast
  with assms have wrap: "should_wrap_elf w (Some f)"
    by (simp add: should_wrap_elf_iff)
  with assms(1,2) have e: "execve w filename argv envp = execve_via_linker w real_execve_fn (Some f) argv envp"
    by (simp add: execve_def)
  then show ?thesis
    by (simp add: execve_via_linker_def linker_argv_head Let_def)
qed

theorem execve_wraps_native_binary_witness:
  "execve demo_world (Some ''/data/data/com.termux/files/usr/bin/ls'')
     (Some [Some ''ls'', Some ''-l'', None]) None
   = ([\<lparr>call_file = Some ''/system/bin/linker64'',
        call_argv = Some [Some ''/system/bin/linker64'', Some ''/p/usr/bin/ls'', Some ''-l'', None],
        call_envp = Some [''PREFIX=/p/usr'']\<rparr>], Failed EACCES)"
proof -
  have 1: "dlsym_execve demo_world = Some (\<lambda>c. Some EACCES)"
    by (simp add: demo_world_def mk_world_def)
  have 2: "effective_filename demo_world (Some ''/data/data/com.termux/files/usr/bin/ls'')
      = Some ''/p/usr/bin/ls''"
    by code_simp
  have 3: "take 1 ''/p/usr/bin/ls'' = ''/''"
    by simp
  have 4: "\<not> is_linker_path (Some ''/p/usr/bin/ls'')"
    by (simp add: is_linker_path_def)
  have 5: "\<not> starts_with (Some ''/p/usr/bin/ls'') (Some ''/system/'')"
    by simp
  have 6: "\<not> starts_with (Some ''/p/usr/bin/ls'') (Some ''/apex/'')"
    by simp
  have 7: "path_in_prefix demo_world (Some ''/p/usr/bin/ls'')"
    by code_simp
  have 8: "files demo_world ''/p/usr/bin/ls'' = Bytes (elf_magic @ ''...'')"
    by (simp add: demo_world_def mk_world_def)
  have 9: "take 4 (elf_magic @ ''...'') = elf_magic"
    by (simp add: elf_magic_def)
  have ev: "(if calloc_ok demo_world (argc_of (Some [Some ''ls'', Some ''-l'', None]) + 2)
             then call_real_execve (\<lambda>c. Some EACCES) (Some (select_system_linker demo_world))
                    (Some (linker_argv (select_system_linker demo_world) (Some ''/p/usr/bin/ls'')
                             (Some [Some ''ls'', Some ''-l'', None])))
                    (envp_or_environ demo_world None)
             else ([], Failed ENOMEM))
      = ([\<lparr>call_file = Some ''/system/bin/linker64'',
           call_argv = Some [Some ''/system/bin/linker64'', Some ''/p/usr/bin/ls'', Some ''-l'', None],
           call_envp = Some [''PREFIX=/p/usr'']\<rparr>], Failed EACCES)"
    by code_simp
  note th = execve_wraps_native_binary [OF 1 2 3 4 5 6 7 8 9,
      of "Some [Some ''ls'', Some ''-l'', None]" None, THEN conjunct2, THEN conjunct1]
  show ?thesis
    unfolding th ev ..
qed

subsection \<open>Scripts with an interpreter outside the environment\<close>

text \<open>
  Claim C4, as amended. When the legacy-remapped path of the request is classified
  in-environment, the shebang parser succeeds on it, and the parsed interpreter, after the
  legacy remap, is not classified in-environment, \<open>execve\<close> makes exactly one call of the
  underlying \<^verbatim>\<open>execve\<close>, not wrapped through the linker: with the caller's argument
  vector unchanged, and on the legacy-remapped path of the request, which is the caller's
  own path whenever the legacy remap does not apply to it.
\<close>

theorem execve_script_passthrough:
  assumes "dlsym_execve w = Some real_execve_fn"
    and "path_in_prefix w (effective_filename w filename)"
    and "parse_shebang w (effective_filename w filename) = Some sb"
    and "interp = (case map_legacy_termux_usr_path w (Some (interpreter sb)) PATH_MAX of
                     Some remapped \<Rightarrow> remapped | None \<Rightarrow> interpreter sb)"
    and "\<not> path_in_prefix w (Some interp)"
  shows "execve w filename argv envp =
           call_real_execve real_execve_fn (effective_filename w filename) argv (envp_or_environ w envp) \<and>
         fst (execve w filename argv envp) =
           [\<lparr>call_file = effective_filename w filename, call_argv = argv,
             call_envp = envp_or_environ w envp\<rparr>] \<and>
         (map_legacy_termux_usr_path w filename PATH_MAX = None \<longrightarrow>
            effective_filename w filename = filename)"
proof -
  let ?eff = "effective_filename w filename"
  have "\<not> is_elf_binary w ?eff"
    using assms(3) by (rule shebang_not_elf)
  then have nw: "\<not> should_wrap_elf w ?eff"
    by (cases ?eff) (auto simp: should_wrap_elf_def)
  obtain f content where "?eff = Some f"
    and "parse_shebang_line (takeWhile (\<lambda>c. c \<noteq> CHR 0x00) (drop 2 (take 511 content))) = Some sb"
    using assms(3) by (rule parse_shebang_SomeD)
  then have ne: "interpreter sb \<noteq> []"
    using parse_shebang_line_interpreter by blast
  have "execve w filename argv envp = exec_script_via_linker w real_execve_fn ?eff sb argv envp"
    using assms(1,2,3) nw by (simp add: execve_def Let_def)
  also have "\<dots> = call_real_execve real_execve_fn ?eff argv (envp_or_environ w envp)"
    using ne assms(4,5) by (simp add: exec_script_via_linker_def Let_def)
  finally have e: "execve w filename argv envp =
      call_real_execve real_execve_fn ?eff argv (envp_or_environ w envp)" .
  then show ?thesis
    by (simp add: call_real_execve_def effective_filename_def Let_def)
qed

theorem execve_script_passthrough_witness:
  "execve demo_world (Some ''/p/usr/bin/outer'') (Some [Some ''outer'', Some ''x'', None]) None
   = ([\<lparr>call_file = Some ''/p/usr/bin/outer'',
        call_argv = Some [Some ''outer'', Some ''x'', None],
        call_envp = Some [''PREFIX=/p/usr'']\<rparr>], Failed EACCES)"
proof -
  let ?sb = "\<lparr>interpreter = ''/system/bin/sh'', arg = [], has_arg = False\<rparr>"
  have eff: "effective_filename demo_world (Some ''/p/usr/bin/outer'') = Some ''/p/usr/bin/outer''"
    by code_simp
  have 1: "dlsym_execve demo_world = Some (\<lambda>c. Some EACCES)"
    by (simp add: demo_world_def mk_world_def)
  have 2: "path_in_prefix demo_world (effective_filename demo_world (Some ''/p/usr/bin/outer''))"
    by code_simp
  have 3: "parse_shebang demo_world (effective_filename demo_world (Some ''/p/usr/bin/outer'')) = Some ?sb"
    by code_simp
  have 4: "''/system/bin/sh'' =
      (case map_legacy_termux_usr_path demo_world (Some (interpreter ?sb)) PATH_MAX of
         Some remapped \<Rightarrow> remapped | None \<Rightarrow> interpreter ?sb)"
    by code_simp
  have 5: "\<not> path_in_prefix demo_world (Some ''/system/bin/sh'')"
    by code_simp
  have ev: "call_real_execve (\<lambda>c. Some EACCES) (Some ''/p/usr/bin/outer'')
       (Some [Some ''outer'', Some ''x'', None]) (envp_or_environ demo_world None)
     = ([\<lparr>call_file = Some ''/p/usr/bin/outer'',
        call_argv = Some [Some ''outer'', Some ''x'', None],
        call_envp = Some [''PREFIX=/p/usr'']\<rparr>], Failed EACCES)"
    by code_simp
  note th = execve_script_passthrough [OF 1 2 3 4 5,
      of "Some [Some ''outer'', Some ''x'', None]" None, THEN conjunct1]
  show ?thesis
    unfolding th eff ev ..
qed

text \<open>
  Claim C4 as stated fails for a script that the caller names by a legacy path: the
  script is in the environment, its interpreter \<^verbatim>\<open>/system/bin/sh\<close> is not, and the
  underlying \<^verbatim>\<open>execve\<close> is called without the linker, but on the rewritten path, not
  on the caller's path.
\<close>

theorem passthrough_legacy_path_counterexample:
  "path_in_prefix demo_world (Some ''/data/data/com.termux/files/usr/bin/outer'') \<and>
   parse_shebang demo_world
       (effective_filename demo_world (Some ''/data/data/com.termux/files/usr/bin/outer''))
     = Some \<lparr>interpreter = ''/system/bin/sh'', arg = [], has_arg = False\<rparr> \<and>
   \<not> path_in_prefix demo_world (Some ''/system/bin/sh'') \<and>
   execve demo_world (Some ''/data/data/com.termux/files/usr/bin/outer'')
       (Some [Some ''outer'', None]) None
     = ([\<lparr>call_file = Some ''/p/usr/bin/outer'', call_argv = Some [Some ''outer'', None],
          call_envp = Some [''PREFIX=/p/usr'']\<rparr>], Failed EACCES)"
  by code_simp

subsection \<open>Argument vectors built from an empty argument vector\<close>

text \<open>
  Claim C3 does not hold of the code when the caller's argument vector is NULL or empty.
  The block is allocated with \<open>argc + 2\<close> (binary) or \<open>argc + fixed\<close> (script) slots,
  which leaves room for the terminator only when \<open>argc \<ge> 1\<close>: with \<open>argc = 0\<close> every
  slot is filled and the vector handed to the underlying \<^verbatim>\<open>execve\<close> has no NULL slot.
  The calls below are those made for a NULL vector and for an empty one.
\<close>

theorem wrapped_argv_without_terminator:
  "map call_argv (fst (execve demo_world (Some ''/p/usr/bin/ls'') None None))
     = [Some [Some ''/system/bin/linker64'', Some ''/p/usr/bin/ls'']] \<and>
   map call_argv (fst (execve demo_world (Some ''/p/usr/bin/ls'') (Some [None]) None))
     = [Some [Some ''/system/bin/linker64'', Some ''/p/usr/bin/ls'']] \<and>
   map call_argv (fst (execve demo_world (Some ''/p/usr/bin/inner'') (Some [None]) None))
     = [Some [Some ''/system/bin/linker64'', Some ''/p/usr/bin/sh'', Some ''-e'',
              Some ''/p/usr/bin/inner'']]"
  by code_simp

subsection \<open>Shebang parser and over-long lines\<close>




subsection \<open>Directory search\<close>

text \<open>
  Claim C7 does not hold of the code for a search list with an empty segment.
  \<^verbatim>\<open>strtok_r\<close> never returns an empty token, so the test \<^verbatim>\<open>token[0] ? token : "."\<close>
  always takes the token: with \<^verbatim>\<open>PATH=/a::/b\<close> the tokens are \<^verbatim>\<open>/a\<close> and \<^verbatim>\<open>/b\<close>,
  and the search for \<^verbatim>\<open>tool\<close> attempts \<^verbatim>\<open>/a/tool\<close> and \<^verbatim>\<open>/b/tool\<close>, never
  \<^verbatim>\<open>./tool\<close>.
\<close>

theorem empty_path_segment_skipped:
  "strtok_tokens ''/a::/b'' '':'' = [''/a'', ''/b''] \<and>
   map call_file
     (fst (execvp (mk_world [(''PATH'', ''/a::/b'')] [] (\<lambda>c. Some ENOENT)) (Some ''tool'')
             (Some [Some ''tool'', None])))
     = [Some ''/a/tool'', Some ''/b/tool'']"
  by code_simp

text \<open>
  Claim C8, as amended. For a name without a separator and a search list without empty
  segments (that could be copied), the candidates \<open>dir/name\<close>, one per segment of the
  list in order, those of \<^verbatim>\<open>PATH_MAX\<close> bytes or more left out, are attempted strictly
  from left to right, and a failed attempt never ends the search, whatever its error: when
  no attempt replaces the image, every candidate has been attempted in order and the call
  returns -1 with the error of the last attempt that failed with something other than
  \<^verbatim>\<open>ENOENT\<close> or \<^verbatim>\<open>ENOTDIR\<close>, or with \<^verbatim>\<open>ENOENT\<close> when there was none; the search
  stops only at the first attempt that replaces the image.
\<close>

theorem path_search_order_and_errors:
  assumes "name \<noteq> []" and "\<not> strchr_found name CHR ''/''" and "strdup_ok w (search_path_env w)"
    and "[] \<notin> set (split_on (CHR '':'') (search_path_env w))"
    and "cands = path_candidates name (search_path_env w)"
  shows "((\<forall>c \<in> set cands. snd (execve w (Some c) argv envp) \<noteq> NoReturn) \<longrightarrow>
            search_path_and_exec w (Some name) argv envp =
              (concat (map (\<lambda>c. fst (execve w (Some c) argv envp)) cands),
               Failed (last (ENOENT # specific_errors (map (\<lambda>c. snd (execve w (Some c) argv envp)) cands))))) \<and>
         (\<forall>pre c post. cands = pre @ c # post \<and>
            (\<forall>c' \<in> set pre. snd (execve w (Some c') argv envp) \<noteq> NoReturn) \<and>
            snd (execve w (Some c) argv envp) = NoReturn \<longrightarrow>
            search_path_and_exec w (Some name) argv envp =
              (concat (map (\<lambda>c. fst (execve w (Some c) argv envp)) (pre @ [c])), NoReturn))"
proof -
  have sp: "search_path_and_exec w (Some name) argv envp =
      search_loop w (strtok_tokens (search_path_env w) '':'') name argv envp ENOENT"
    using assms(1,2,3) by (simp add: search_path_and_exec_def Let_def)
  have cs: "cands = search_candidates name (strtok_tokens (search_path_env w) '':'')"
    unfolding assms(5) using assms(4) by (rule search_candidates_segments [symmetric])
  show ?thesis
    unfolding sp cs
    using search_loop_all_fail [of name "strtok_tokens (search_path_env w) '':''" w argv envp ENOENT]
      search_loop_stops_at_success [of name "strtok_tokens (search_path_env w) '':''" _ _ _ w argv envp ENOENT]
    by blast
qed

theorem path_search_order_and_errors_witness:
  "search_path_and_exec search_world (Some ''tool'') (Some [Some ''tool'', None]) None
     = ([\<lparr>call_file = Some ''/a/tool'', call_argv = Some [Some ''tool'', None],
          call_envp = Some [''PATH=/a:/b'']\<rparr>,
         \<lparr>call_file = Some ''/b/tool'', call_argv = Some [Some ''tool'', None],
          call_envp = Some [''PATH=/a:/b'']\<rparr>], Failed EACCES) \<and>
   search_path_and_exec found_world (Some ''tool'') (Some [Some ''tool'', None]) None
     = ([\<lparr>call_file = Some ''/a/tool'', call_argv = Some [Some ''tool'', None],
          call_envp = Some [''PATH=/a:/b:/c'']\<rparr>,
         \<lparr>call_file = Some ''/b/tool'', call_argv = Some [Some ''tool'', None],
          call_envp = Some [''PATH=/a:/b:/c'']\<rparr>], NoReturn)"
proof -
  let ?argv = "Some [Some ''tool'', None]"
  have 1: "''tool'' \<noteq> []"
    by simp
  have 2: "\<not> strchr_found ''tool'' CHR ''/''"
    by (simp add: strchr_found_def)
  have 3: "strdup_ok search_world (search_path_env search_world)"
    by (simp add: search_world_def mk_world_def)
  have s1: "[] \<notin> set (split_on (CHR '':'') (search_path_env search_world))"
    by code_simp
  have 4: "[''/a/tool'', ''/b/tool''] = path_candidates ''tool'' (search_path_env search_world)"
    by code_simp
  have 5: "\<forall>c \<in> set [''/a/tool'', ''/b/tool'']. snd (execve search_world (Some c) ?argv None) \<noteq> NoReturn"
    by code_simp
  have ev: "(concat (map (\<lambda>c. fst (execve search_world (Some c) ?argv None)) [''/a/tool'', ''/b/tool'']),
       Failed (last (ENOENT # specific_errors
          (map (\<lambda>c. snd (execve search_world (Some c) ?argv None)) [''/a/tool'', ''/b/tool'']))))
     = ([\<lparr>call_file = Some ''/a/tool'', call_argv = Some [Some ''tool'', None],
          call_envp = Some [''PATH=/a:/b'']\<rparr>,
         \<lparr>call_file = Some ''/b/tool'', call_argv = Some [Some ''tool'', None],
          call_envp = Some [''PATH=/a:/b'']\<rparr>], Failed EACCES)"
    by code_simp
  from path_search_order_and_errors [OF 1 2 3 s1 4, of ?argv None, THEN conjunct1] 5
  have a: "search_path_and_exec search_world (Some ''tool'') ?argv None =
      (concat (map (\<lambda>c. fst (execve search_world (Some c) ?argv None)) [''/a/tool'', ''/b/tool'']),
       Failed (last (ENOENT # specific_errors
          (map (\<lambda>c. snd (execve search_world (Some c) ?argv None)) [''/a/tool'', ''/b/tool'']))))"
    by blast
  have 6: "strdup_ok found_world (search_path_env found_world)"
    by (simp add: found_world_def mk_world_def)
  have s2: "[] \<notin> set (split_on (CHR '':'') (search_path_env found_world))"
    by code_simp
  have 7: "[''/a/tool''] @ ''/b/tool'' # [''/c/tool''] = path_candidates ''tool'' (search_path_env found_world)"
    by code_simp
  have 8: "\<forall>c \<in> set [''/a/tool'']. snd (execve found_world (Some c) ?argv None) \<noteq> NoReturn"
    by code_simp
  have 9: "snd (execve found_world (Some ''/b/tool'') ?argv None) = NoReturn"
    by code_simp
  have ev2: "(concat (map (\<lambda>c. fst (execve found_world (Some c) ?argv None)) ([''/a/tool''] @ [''/b/tool''])),
       NoReturn)
     = ([\<lparr>call_file = Some ''/a/tool'', call_argv = Some [Some ''tool'', None],
          call_envp = Some [''PATH=/a:/b:/c'']\<rparr>,
         \<lparr>call_file = Some ''/b/tool'', call_argv = Some [Some ''tool'', None],
          call_envp = Some [''PATH=/a:/b:/c'']\<rparr>], NoReturn)"
    by code_simp
  from path_search_order_and_errors [OF 1 2 6 s2 refl, of ?argv None, THEN conjunct2] 7 8 9
  have b: "search_path_and_exec found_world (Some ''tool'') ?argv None =
      (concat (map (\<lambda>c. fst (execve found_world (Some c) ?argv None)) ([''/a/tool''] @ [''/b/tool''])),
       NoReturn)"
    by metis
  show ?thesis
    unfolding a ev b ev2 by simp
qed

text \<open>
  Claim C8 as stated fails. With \<^verbatim>\<open>PATH=/a:/b\<close> the attempt on \<^verbatim>\<open>/a/tool\<close> fails with
  \<^verbatim>\<open>EACCES\<close>, which is neither \<^verbatim>\<open>ENOENT\<close> nor \<^verbatim>\<open>ENOTDIR\<close>; the search does not
  stop there but goes on to attempt \<^verbatim>\<open>/b/tool\<close>.
\<close>

theorem search_continues_after_error_counterexample:
  "execve search_world (Some ''/a/tool'') (Some [Some ''tool'', None]) (environ search_world)
     = ([\<lparr>call_file = Some ''/a/tool'', call_argv = Some [Some ''tool'', None],
          call_envp = Some [''PATH=/a:/b'']\<rparr>], Failed EACCES) \<and>
   execvp search_world (Some ''tool'') (Some [Some ''tool'', None])
     = ([\<lparr>call_file = Some ''/a/tool'', call_argv = Some [Some ''tool'', None],
          call_envp = Some [''PATH=/a:/b'']\<rparr>,
         \<lparr>call_file = Some ''/b/tool'', call_argv = Some [Some ''tool'', None],
          call_envp = Some [''PATH=/a:/b'']\<rparr>], Failed EACCES)"
  by code_simp

text \<open>
  Claim C9. When \<^verbatim>\<open>PATH\<close> is unset or empty the search list is \<^verbatim>\<open>/system/bin\<close>, a
  single directory: a search for a non-empty name without a separator makes exactly the
  attempt on \<^verbatim>\<open>/system/bin/name\<close> (when the list can be copied and the candidate fits
  the buffer), and returns what that attempt returns, with \<^verbatim>\<open>ENOENT\<close> in place of
  \<^verbatim>\<open>ENOTDIR\<close>.
\<close>

theorem default_search_list:
  assumes "getenv w ''PATH'' = None \<or> getenv w ''PATH'' = Some []"
  shows "search_path_env w = ''/system/bin'' \<and>
         strtok_tokens (search_path_env w) '':'' = [''/system/bin''] \<and>
         (name \<noteq> [] \<and> \<not> strchr_found name CHR ''/'' \<and> strdup_ok w ''/system/bin'' \<and>
          length name + 12 < PATH_MAX \<longrightarrow>
            search_path_and_exec w (Some name) argv envp =
              (case execve w (Some (''/system/bin/'' @ name)) argv envp of
                 (calls, NoReturn) \<Rightarrow> (calls, NoReturn)
               | (calls, Failed e) \<Rightarrow>
                   (calls, Failed (if e \<noteq> ENOENT \<and> e \<noteq> ENOTDIR then e else ENOENT))))"
proof -
  from assms have env: "search_path_env w = ''/system/bin''"
    by (auto simp: search_path_env_def)
  have toks: "strtok_tokens ''/system/bin'' '':'' = [''/system/bin'']"
    by code_simp
  have "search_path_and_exec w (Some name) argv envp =
      (case execve w (Some (''/system/bin/'' @ name)) argv envp of
         (calls, NoReturn) \<Rightarrow> (calls, NoReturn)
       | (calls, Failed e) \<Rightarrow>
           (calls, Failed (if e \<noteq> ENOENT \<and> e \<noteq> ENOTDIR then e else ENOENT)))"
    if "name \<noteq> []" "\<not> strchr_found name CHR ''/''" "strdup_ok w ''/system/bin''"
      "length name + 12 < PATH_MAX"
    using that
    by (simp add: search_path_and_exec_def env toks Let_def split: prod.splits outcome.splits)
  with env toks show ?thesis
    by simp
qed

theorem default_search_list_witness:
  "search_path_and_exec demo_world (Some ''sh'') (Some [Some ''sh'', None]) None
     = ([\<lparr>call_file = Some ''/system/bin/sh'', call_argv = Some [Some ''sh'', None],
          call_envp = Some [''PREFIX=/p/usr'']\<rparr>], Failed EACCES)"
proof -
  have 1: "getenv demo_world ''PATH'' = None \<or> getenv demo_world ''PATH'' = Some []"
    by (simp add: demo_world_def mk_world_def)
  have 2: "''sh'' \<noteq> [] \<and> \<not> strchr_found ''sh'' CHR ''/'' \<and> strdup_ok demo_world ''/system/bin'' \<and>
      length ''sh'' + 12 < PATH_MAX"
    by (simp add: strchr_found_def demo_world_def mk_world_def PATH_MAX_def)
  have ev: "(case execve demo_world (Some (''/system/bin/'' @ ''sh'')) (Some [Some ''sh'', None]) None of
         (calls, NoReturn) \<Rightarrow> (calls, NoReturn)
       | (calls, Failed e) \<Rightarrow>
           (calls, Failed (if e \<noteq> ENOENT \<and> e \<noteq> ENOTDIR then e else ENOENT)))
     = ([\<lparr>call_file = Some ''/system/bin/sh'', call_argv = Some [Some ''sh'', None],
          call_envp = Some [''PREFIX=/p/usr'']\<rparr>], Failed EACCES)"
    by code_simp
  from default_search_list [OF 1, of "''sh''" "Some [Some ''sh'', None]" None] 2
  have "search_path_and_exec demo_world (Some ''sh'') (Some [Some ''sh'', None]) None =
      (case execve demo_world (Some (''/system/bin/'' @ ''sh'')) (Some [Some ''sh'', None]) None of
         (calls, NoReturn) \<Rightarrow> (calls, NoReturn)
       | (calls, Failed e) \<Rightarrow>
           (calls, Failed (if e \<noteq> ENOENT \<and> e \<noteq> ENOTDIR then e else ENOENT)))"
    by blast
  then show ?thesis
    unfolding ev .
qed

subsection \<open>NULL environment pointer\<close>

text \<open>
  Claim C10. When the caller passes a NULL environment pointer to \<open>execve\<close> or to
  \<open>execvpe\<close>, every call of the underlying \<^verbatim>\<open>execve\<close> receives \<^verbatim>\<open>environ\<close>, the
  current environment of the process, whichever branch makes the call.
\<close>

theorem null_envp_becomes_environ:
  "(\<forall>c \<in> set (fst (execve w filename argv None)). call_envp c = environ w) \<and>
   (\<forall>c \<in> set (fst (execvpe w file argv None)). call_envp c = environ w)"
proof -
  have "envp_or_environ w None = environ w"
    by (simp add: envp_or_environ_def)
  moreover have "envp_or_environ w (environ w) = environ w"
    by (cases "environ w") (simp_all add: envp_or_environ_def)
  ultimately show ?thesis
    using execve_calls_envp [of _ w filename argv None]
      search_path_and_exec_calls_envp [of _ w "file" argv "environ w"]
    by (auto simp: execvpe_def)
qed

theorem null_envp_becomes_environ_witness:
  "map call_envp (fst (execve demo_world (Some ''/system/bin/ls'') (Some [Some ''ls'', None]) None))
     = [environ demo_world] \<and>
   map call_envp (fst (execve demo_world (Some ''/p/usr/bin/ls'') (Some [Some ''ls'', None]) None))
     = [environ demo_world] \<and>
   map call_envp (fst (execve demo_world (Some ''/p/usr/bin/inner'') (Some [Some ''inner'', None]) None))
     = [environ demo_world] \<and>
   map call_envp (fst (execve demo_world (Some ''/p/usr/bin/outer'') (Some [Some ''outer'', None]) None))
     = [environ demo_world] \<and>
   map call_envp (fst (execvpe demo_world (Some ''ls'') (Some [Some ''ls'', None]) None))
     = [environ demo_world]"
proof -
  have "length (fst (execve demo_world (Some ''/system/bin/ls'') (Some [Some ''ls'', None]) None)) = 1"
    and "length (fst (execve demo_world (Some ''/p/usr/bin/ls'') (Some [Some ''ls'', None]) None)) = 1"
    and "length (fst (execve demo_world (Some ''/p/usr/bin/inner'') (Some [Some ''inner'', None]) None)) = 1"
    and "length (fst (execve demo_world (Some ''/p/usr/bin/outer'') (Some [Some ''outer'', None]) None)) = 1"
    and "length (fst (execvpe demo_world (Some ''ls'') (Some [Some ''ls'', None]) None)) = 1"
    by code_simp+
  then show ?thesis
    using null_envp_becomes_environ [of demo_world "Some ''/system/bin/ls''" "Some [Some ''ls'', None]"
        "Some ''ls''"]
      null_envp_becomes_environ [of demo_world "Some ''/p/usr/bin/ls''" "Some [Some ''ls'', None]"]
      null_envp_becomes_environ [of demo_world "Some ''/p/usr/bin/inner''" "Some [Some ''inner'', None]"]
      null_envp_becomes_environ [of demo_world "Some ''/p/usr/bin/outer''" "Some [Some ''outer'', None]"]
    by (simp add: singleton_map)
qed

end
